theory Spec2Isabelle
  imports Main "HOL-Library.Word" "HOL-Library.Code_Target_Numeral"
begin

unbundle bit_operations_syntax

section \<open>Python values and strings\<close>

text \<open>
  A Python \<open>str\<close> is a sequence of Unicode code points, so a string is a list of code
  points (natural numbers), not a list of bytes: \<open>hashing.py\<close> puts the character
  U+00A7 into its sentinel and encodes to UTF-8 only just before hashing.
  The values of a bronze column are text, integers or null.
\<close>

type_synonym ustr = "nat list"

datatype pyval = PNone | PStr ustr | PInt int

text \<open>An ASCII literal as a Python string.\<close>

definition ascii :: "string \<Rightarrow> ustr" where
  "ascii s = map of_char s"

text \<open>\<open>str(v)\<close>: a string is itself, an integer is printed in decimal.\<close>

fun digits :: "nat \<Rightarrow> ustr" where
  "digits n = (if n < 10 then [48 + n] else digits (n div 10) @ [48 + n mod 10])"

declare digits.simps [simp del]

definition str_int :: "int \<Rightarrow> ustr" where
  "str_int i = (if i < 0 then 45 # digits (nat (- i)) else digits (nat i))"

fun str :: "pyval \<Rightarrow> ustr" where
  "str PNone = ascii ''None''"
| "str (PStr s) = s"
| "str (PInt i) = str_int i"

text \<open>
  The whitespace of \<open>str.strip()\<close> and of \<open>\s\<close> in a \<open>str\<close> pattern is the same set,
  the code points for which \<open>str.isspace\<close> holds: U+0009..U+000D, U+001C..U+0020,
  U+0085, U+00A0, U+1680, U+2000..U+200A, U+2028, U+2029, U+202F, U+205F, U+3000.
\<close>

definition isspace :: "nat \<Rightarrow> bool" where
  "isspace c \<longleftrightarrow>
     (9 \<le> c \<and> c \<le> 13) \<or> (28 \<le> c \<and> c \<le> 32) \<or> c = 133 \<or> c = 160 \<or> c = 5760 \<or>
     (8192 \<le> c \<and> c \<le> 8202) \<or> c = 8232 \<or> c = 8233 \<or> c = 8239 \<or> c = 8287 \<or>
     c = 12288"

text \<open>\<open>s.strip()\<close> removes the leading and the trailing whitespace.\<close>

definition strip :: "ustr \<Rightarrow> ustr" where
  "strip s = rev (dropWhile isspace (rev (dropWhile isspace s)))"

text \<open>
  \<open>s.upper()\<close> replaces every code point by its full uppercase mapping, which may be
  several code points (U+00DF becomes \<open>SS\<close>) and does not depend on the neighbours.
  The mapping is a table of the Unicode database, which is not part of the repository:
  it is the parameter \<open>up\<close> of everything below.
\<close>

definition upper :: "(nat \<Rightarrow> ustr) \<Rightarrow> ustr \<Rightarrow> ustr" where
  "upper up s = concat (map up s)"

text \<open>
  The table on the code points below 256, as Python has it; the code points from 256
  on are left as they are, which is not Python's table there. It serves to evaluate
  the functions on concrete strings of code points below 256.
\<close>

definition upper_latin1 :: "nat \<Rightarrow> ustr" where
  "upper_latin1 c =
     (if 97 \<le> c \<and> c \<le> 122 then [c - 32]
      else if c = 181 then [924]
      else if c = 223 then [83, 83]
      else if 224 \<le> c \<and> c \<le> 254 \<and> c \<noteq> 247 then [c - 32]
      else if c = 255 then [376]
      else [c])"

text \<open>
  What the theorems below ask of the table. Each holds of the Unicode table:
  whitespace has no case, the uppercase of anything else is not empty and holds no
  whitespace, uppercasing twice is uppercasing once, and the two characters the module
  gives a role to, \<open>|\<close> and U+00A7, are the uppercase of nothing but themselves.
\<close>

definition up_space :: "(nat \<Rightarrow> ustr) \<Rightarrow> bool" where
  "up_space up \<longleftrightarrow>
     (\<forall>c. if isspace c then up c = [c] else up c \<noteq> [] \<and> (\<forall>d \<in> set (up c). \<not> isspace d))"

definition up_idem :: "(nat \<Rightarrow> ustr) \<Rightarrow> bool" where
  "up_idem up \<longleftrightarrow> (\<forall>c. concat (map up (up c)) = up c)"

definition up_keeps :: "(nat \<Rightarrow> ustr) \<Rightarrow> nat \<Rightarrow> bool" where
  "up_keeps up k \<longleftrightarrow> up k = [k] \<and> (\<forall>c. k \<in> set (up c) \<longrightarrow> c = k)"

section \<open>hashing.py\<close>

text \<open>\<open>_NULL\<close>, the sentinel: U+00A7, \<open>NULL\<close>, U+00A7.\<close>

definition NULL :: ustr where
  "NULL = 167 # ascii ''NULL'' @ [167]"

text \<open>
  \<open>_WS_RE.sub(" ", s)\<close> with \<open>_WS_RE = re.compile(r"\s+")\<close>: every maximal run of
  whitespace becomes one space.
\<close>

function WS_RE_sub :: "ustr \<Rightarrow> ustr" where
  "WS_RE_sub [] = []"
| "WS_RE_sub (c # cs) =
     (if isspace c then 32 # WS_RE_sub (dropWhile isspace cs) else c # WS_RE_sub cs)"
  by pat_completeness auto
termination
  by (relation "measure length") (auto simp: le_imp_less_Suc length_dropWhile_le)

text \<open>\<open>_norm\<close>.\<close>

definition norm :: "(nat \<Rightarrow> ustr) \<Rightarrow> pyval \<Rightarrow> ustr" where
  "norm up v =
     (if v = PNone \<or> v = PStr [] then NULL
      else let s = upper up (strip (str v));
               s = WS_RE_sub s
           in if s = [] then NULL else s)"

text \<open>
  \<open>s.encode("utf-8")\<close>. A surrogate code point (U+D800..U+DFFF) has no UTF-8 form and
  the encoder raises \<open>UnicodeEncodeError\<close>. A Python string holds no code point above
  U+10FFFF; the model rejects one as well.
\<close>

datatype error = UnicodeEncodeError | ProgrammingError | IntegrityError

type_synonym byte = "8 word"
type_synonym u32 = "32 word"

definition utf8_bytes :: "nat \<Rightarrow> nat list" where
  "utf8_bytes c =
     (if c < 128 then [c]
      else if c < 2048 then [192 + c div 64, 128 + c mod 64]
      else if c < 65536 then [224 + c div 4096, 128 + c div 64 mod 64, 128 + c mod 64]
      else [240 + c div 262144, 128 + c div 4096 mod 64, 128 + c div 64 mod 64,
            128 + c mod 64])"

definition encode_cp :: "nat \<Rightarrow> byte list option" where
  "encode_cp c =
     (if (55296 \<le> c \<and> c \<le> 57343) \<or> 1114112 \<le> c then None
      else Some (map of_nat (utf8_bytes c)))"

fun encode_utf8 :: "ustr \<Rightarrow> byte list option" where
  "encode_utf8 [] = Some []"
| "encode_utf8 (c # cs) =
     (case encode_cp c of None \<Rightarrow> None
      | Some bs \<Rightarrow> (case encode_utf8 cs of None \<Rightarrow> None | Some r \<Rightarrow> Some (bs @ r)))"

text \<open>
  \<open>hashlib.sha256\<close> is the SHA-256 of FIPS 180-4: the message is padded to a multiple
  of 64 bytes and every block is compressed into a state of eight 32-bit words.
\<close>

text \<open>
  The round constants (the first 32 bits of the fractional parts of the cube roots of the
  first 64 primes) and the initial state (of the square roots of the first 8 primes),
  written in decimal.
\<close>

definition K :: "u32 list" where
  "K =
    [1116352408, 1899447441, 3049323471, 3921009573, 961987163, 1508970993,
     2453635748, 2870763221, 3624381080, 310598401, 607225278, 1426881987,
     1925078388, 2162078206, 2614888103, 3248222580, 3835390401, 4022224774,
     264347078, 604807628, 770255983, 1249150122, 1555081692, 1996064986,
     2554220882, 2821834349, 2952996808, 3210313671, 3336571891, 3584528711,
     113926993, 338241895, 666307205, 773529912, 1294757372, 1396182291,
     1695183700, 1986661051, 2177026350, 2456956037, 2730485921, 2820302411,
     3259730800, 3345764771, 3516065817, 3600352804, 4094571909, 275423344,
     430227734, 506948616, 659060556, 883997877, 958139571, 1322822218,
     1537002063, 1747873779, 1955562222, 2024104815, 2227730452, 2361852424,
     2428436474, 2756734187, 3204031479, 3329325298]"

definition H0 :: "u32 list" where
  "H0 =
    [1779033703, 3144134277, 1013904242, 2773480762, 1359893119, 2600822924,
     528734635, 1541459225]"

definition Ch :: "u32 \<Rightarrow> u32 \<Rightarrow> u32 \<Rightarrow> u32" where
  "Ch x y z = (x AND y) XOR (NOT x AND z)"

definition Maj :: "u32 \<Rightarrow> u32 \<Rightarrow> u32 \<Rightarrow> u32" where
  "Maj x y z = (x AND y) XOR (x AND z) XOR (y AND z)"

definition Sigma0 :: "u32 \<Rightarrow> u32" where
  "Sigma0 x = word_rotr 2 x XOR word_rotr 13 x XOR word_rotr 22 x"

definition Sigma1 :: "u32 \<Rightarrow> u32" where
  "Sigma1 x = word_rotr 6 x XOR word_rotr 11 x XOR word_rotr 25 x"

definition sigma0 :: "u32 \<Rightarrow> u32" where
  "sigma0 x = word_rotr 7 x XOR word_rotr 18 x XOR drop_bit 3 x"

definition sigma1 :: "u32 \<Rightarrow> u32" where
  "sigma1 x = word_rotr 17 x XOR word_rotr 19 x XOR drop_bit 10 x"

definition pad :: "byte list \<Rightarrow> byte list" where
  "pad m = m @ [128] @ replicate ((119 - length m mod 64) mod 64) 0 @
     map (\<lambda>i. of_nat (8 * length m div 256 ^ i)) [7, 6, 5, 4, 3, 2, 1, 0]"

function chunks :: "nat \<Rightarrow> 'a list \<Rightarrow> 'a list list" where
  "chunks n xs = (if n = 0 \<or> xs = [] then [] else take n xs # chunks n (drop n xs))"
  by pat_completeness auto
termination
  by (relation "measure (\<lambda>(n, xs). length xs)") auto

declare chunks.simps [simp del]

definition be32 :: "byte list \<Rightarrow> u32" where
  "be32 bs = of_nat (foldl (\<lambda>a b. 256 * a + unat b) 0 bs)"

fun schedule :: "nat \<Rightarrow> u32 list \<Rightarrow> u32 list" where
  "schedule 0 w = w"
| "schedule (Suc n) w =
     (let l = length w
      in schedule n (w @ [sigma1 (w ! (l - 2)) + w ! (l - 7) + sigma0 (w ! (l - 15)) + w ! (l - 16)]))"

fun round :: "u32 \<times> u32 \<Rightarrow> u32 list \<Rightarrow> u32 list" where
  "round (k, w) [a, b, c, d, e, f, g, h] =
     (let T1 = h + Sigma1 e + Ch e f g + k + w;
          T2 = Sigma0 a + Maj a b c
      in [T1 + T2, a, b, c, d + T1, e, f, g])"
| "round (k, w) s = s"

definition compress :: "u32 list \<Rightarrow> byte list \<Rightarrow> u32 list" where
  "compress H block =
     (let W = schedule 48 (map be32 (chunks 4 block))
      in map2 (+) H (fold round (zip K W) H))"

definition sha256 :: "byte list \<Rightarrow> u32 list" where
  "sha256 m = foldl compress H0 (chunks 64 (pad m))"

definition hexdigit :: "nat \<Rightarrow> nat" where
  "hexdigit d = (if d < 10 then 48 + d else 87 + d)"

definition hex32 :: "u32 \<Rightarrow> ustr" where
  "hex32 w = map (\<lambda>i. hexdigit (unat w div 16 ^ i mod 16)) [7, 6, 5, 4, 3, 2, 1, 0]"

definition hexdigest :: "u32 list \<Rightarrow> ustr" where
  "hexdigest h = concat (map hex32 h)"

text \<open>
  \<open>dv2_hash\<close>. The tokens are joined with \<open>|\<close> (code point 124); \<open>dv2_joined\<close> is
  the local variable \<open>joined\<close>.
\<close>

fun join :: "ustr \<Rightarrow> ustr list \<Rightarrow> ustr" where
  "join sep [] = []"
| "join sep [x] = x"
| "join sep (x # y # ys) = x @ sep @ join sep (y # ys)"

definition dv2_joined :: "(nat \<Rightarrow> ustr) \<Rightarrow> pyval list \<Rightarrow> ustr" where
  "dv2_joined up cols = join [124] (map (norm up) cols)"

definition dv2_hash :: "(nat \<Rightarrow> ustr) \<Rightarrow> pyval list \<Rightarrow> error + ustr" where
  "dv2_hash up cols =
     (case encode_utf8 (dv2_joined up cols) of
        None \<Rightarrow> Inl UnicodeEncodeError
      | Some bs \<Rightarrow> Inr (hexdigest (sha256 bs)))"

text \<open>
  The normalizer as the specification words it: the string representation, trimmed,
  its runs of whitespace collapsed, then uppercased.
\<close>

definition spec_normalize :: "(nat \<Rightarrow> ustr) \<Rightarrow> pyval \<Rightarrow> ustr" where
  "spec_normalize up v = upper up (WS_RE_sub (strip (str v)))"

section \<open>mock\_source\_pg.py\<close>

text \<open>
  A row of \<open>bronze.<table_name>\<close> has the eight columns of \<open>self.columns\<close>; a row of
  \<open>bronze.<table_name>_hash\<close> has four more.
\<close>

record raw_row =
  col1_bk :: pyval
  col2_bk :: pyval
  col3_fk :: pyval
  col4_fk :: pyval
  col5 :: pyval
  col6 :: pyval
  col7 :: pyval
  col8 :: pyval

record hashed_row = raw_row +
  bk_hash :: ustr
  row_hash :: ustr
  load_dts :: int
  record_source :: ustr

text \<open>\<open>[r[c] for c in self.columns]\<close>.\<close>

definition columns :: "'a raw_row_scheme \<Rightarrow> pyval list" where
  "columns r = [col1_bk r, col2_bk r, col3_fk r, col4_fk r, col5 r, col6 r, col7 r, col8 r]"

text \<open>The two lambdas of \<open>create_bronze_hash\<close>.\<close>

definition bk_hash_of :: "(nat \<Rightarrow> ustr) \<Rightarrow> 'a raw_row_scheme \<Rightarrow> error + ustr" where
  "bk_hash_of up r = dv2_hash up [col1_bk r, col2_bk r]"

definition row_hash_of :: "(nat \<Rightarrow> ustr) \<Rightarrow> 'a raw_row_scheme \<Rightarrow> error + ustr" where
  "row_hash_of up r = dv2_hash up (columns r)"

text \<open>
  \<open>df.with_columns\<close> on one row: the two hashes, the instant of the run and the
  configured source tag. An exception of \<open>dv2_hash\<close> ends the run.
\<close>

definition hash_row :: "(nat \<Rightarrow> ustr) \<Rightarrow> ustr \<Rightarrow> int \<Rightarrow> raw_row \<Rightarrow> error + hashed_row" where
  "hash_row up src now r =
     (case bk_hash_of up r of
        Inl e \<Rightarrow> Inl e
      | Inr bk \<Rightarrow>
          (case row_hash_of up r of
             Inl e \<Rightarrow> Inl e
           | Inr rh \<Rightarrow>
               Inr \<lparr>col1_bk = col1_bk r, col2_bk = col2_bk r, col3_fk = col3_fk r,
                    col4_fk = col4_fk r, col5 = col5 r, col6 = col6 r, col7 = col7 r,
                    col8 = col8 r, bk_hash = bk, row_hash = rh, load_dts = now,
                    record_source = src\<rparr>))"

fun with_columns :: "(nat \<Rightarrow> ustr) \<Rightarrow> ustr \<Rightarrow> int \<Rightarrow> raw_row list \<Rightarrow> error + hashed_row list" where
  "with_columns up src now [] = Inr []"
| "with_columns up src now (r # rs) =
     (case hash_row up src now r of
        Inl e \<Rightarrow> Inl e
      | Inr h \<Rightarrow>
          (case with_columns up src now rs of Inl e \<Rightarrow> Inl e | Inr hs \<Rightarrow> Inr (h # hs)))"

text \<open>
  The database: the bronze table and the hashed table, each absent until its first
  write, and for the hashed table whether its primary key constraint exists.
\<close>

record hash_table =
  rows :: "hashed_row list"
  has_pk :: bool

record db =
  bronze :: "raw_row list option"
  bhash :: "hash_table option"

text \<open>The columns of the primary key.\<close>

definition pk :: "hashed_row \<Rightarrow> ustr \<times> ustr" where
  "pk r = (bk_hash r, row_hash r)"

text \<open>
  \<open>INSERT INTO ... SELECT ... FROM <temp> ON CONFLICT (bk_hash, row_hash) DO NOTHING\<close>:
  a staged row is inserted unless a row of the target, or a row inserted before it by
  the same statement, has its key. The staged rows are taken in the order of the batch.
\<close>

fun insert_on_conflict_do_nothing :: "hashed_row list \<Rightarrow> hashed_row list \<Rightarrow> hashed_row list" where
  "insert_on_conflict_do_nothing t [] = t"
| "insert_on_conflict_do_nothing t (r # rs) =
     insert_on_conflict_do_nothing (if pk r \<in> set (map pk t) then t else t @ [r]) rs"

text \<open>
  \<open>_write_df(df, self.tbl_bhash, pk=("bk_hash","row_hash"))\<close>, in one transaction:
  the table is created empty if it is absent; the batch is staged; the primary key is
  added unless the constraint exists, which the store refuses when two rows of the table
  share a key; the staged rows are inserted. A failure rolls the transaction back, so an
  error carries no new state.
\<close>

definition write_df :: "hashed_row list \<Rightarrow> db \<Rightarrow> error + db" where
  "write_df df d =
     (let t = (case bhash d of None \<Rightarrow> \<lparr>rows = [], has_pk = False\<rparr> | Some t \<Rightarrow> t);
          temp = df
      in if \<not> has_pk t \<and> \<not> distinct (map pk (rows t)) then Inl IntegrityError
         else Inr (d\<lparr>bhash := Some \<lparr>rows = insert_on_conflict_do_nothing (rows t) temp,
                                     has_pk = True\<rparr>\<rparr>))"

text \<open>
  \<open>create_bronze_hash\<close>, with the configured \<open>record_source\<close> and the clock's instant
  as arguments. Reading a bronze table that does not exist is an error of the store.
  The result is the returned count and the database after the run.
\<close>

definition create_bronze_hash ::
    "(nat \<Rightarrow> ustr) \<Rightarrow> ustr \<Rightarrow> int \<Rightarrow> db \<Rightarrow> error + (nat \<times> db)" where
  "create_bronze_hash up src now d =
     (case bronze d of
        None \<Rightarrow> Inl ProgrammingError
      | Some pdf \<Rightarrow>
          if pdf = [] then Inr (0, d)
          else (case with_columns up src now pdf of
                  Inl e \<Rightarrow> Inl e
                | Inr df \<Rightarrow>
                    (case write_df df d of
                       Inl e \<Rightarrow> Inl e
                     | Inr d' \<Rightarrow> Inr (length df, d'))))"


text \<open>A row as \<open>_create_df\<close> makes them, for the examples.\<close>

definition sample_row :: raw_row where
  "sample_row =
     \<lparr>col1_bk = PStr (ascii ''CUST-000000''), col2_bk = PStr (ascii ''SRC-3''),
      col3_fk = PStr (ascii ''HUB-417''), col4_fk = PNone,
      col5 = PStr (ascii ''q7Xb20LmPa''), col6 = PStr (ascii ''5120''),
      col7 = PNone, col8 = PStr (ascii ''Zk3v9TgHw1Qe'')\<rparr>"

text \<open>
  A database for the examples: the bronze table holds the same row twice and the hashed
  table has not been written yet.
\<close>

definition sample_db :: db where
  "sample_db = \<lparr>bronze = Some [sample_row, sample_row], bhash = None\<rparr>"

section \<open>Properties of the string functions\<close>

lemma ascii_simps [simp]: "ascii [] = []" "ascii (c # cs) = of_char c # ascii cs"
  by (simp_all add: ascii_def)

lemma WS_RE_sub_Nil_iff [simp]: "WS_RE_sub s = [] \<longleftrightarrow> s = []"
  by (cases s) auto

lemma strip_Nil_iff: "strip s = [] \<longleftrightarrow> (\<forall>c \<in> set s. isspace c)"
proof
  assume "strip s = []"
  then have a: "dropWhile isspace (rev (dropWhile isspace s)) = []"
    by (simp add: strip_def)
  show "\<forall>c \<in> set s. isspace c"
  proof (cases "dropWhile isspace s")
    case Nil
    then show ?thesis by (simp add: dropWhile_eq_Nil_conv)
  next
    case (Cons x xs)
    then have "\<not> isspace x" using hd_dropWhile [of isspace s] by simp
    moreover from a Cons have "isspace x" by (simp add: dropWhile_eq_Nil_conv)
    ultimately show ?thesis by simp
  qed
next
  assume "\<forall>c \<in> set s. isspace c"
  then show "strip s = []" by (auto simp: strip_def dest: set_dropWhileD)
qed

lemma set_strip: "set (strip s) \<subseteq> set s"
  by (auto simp: strip_def dest!: set_dropWhileD)

lemma set_WS_RE_sub: "set (WS_RE_sub s) \<subseteq> insert 32 (set s)"
proof (induction s rule: WS_RE_sub.induct)
  case 1
  then show ?case by simp
next
  case (2 c cs)
  have "set (dropWhile isspace cs) \<subseteq> set cs" by (rule set_dropWhileD [THEN subsetI])
  with 2 show ?case by auto
qed

lemma WS_RE_sub_nospace: "32 \<notin> set (WS_RE_sub s) \<Longrightarrow> WS_RE_sub s = s"
  by (induction s rule: WS_RE_sub.induct) (auto split: if_splits)

lemma WS_RE_sub_append_nospace:
  "\<forall>d \<in> set xs. \<not> isspace d \<Longrightarrow> WS_RE_sub (xs @ ys) = xs @ WS_RE_sub ys"
  by (induction xs) auto

lemma dropWhile_isspace_id: "s = [] \<or> \<not> isspace (hd s) \<Longrightarrow> dropWhile isspace s = s"
  by (cases s) auto

lemma hd_WS_RE_sub: "s = [] \<or> \<not> isspace (hd s) \<Longrightarrow> WS_RE_sub s = [] \<or> \<not> isspace (hd (WS_RE_sub s))"
  by (cases s) auto

lemma dropWhile_start: "dropWhile isspace s = [] \<or> \<not> isspace (hd (dropWhile isspace s))"
  using hd_dropWhile [of isspace s] by blast

lemma WS_RE_sub_idem: "WS_RE_sub (WS_RE_sub s) = WS_RE_sub s"
proof (induction s rule: WS_RE_sub.induct)
  case 1
  then show ?case by simp
next
  case (2 c cs)
  show ?case
  proof (cases "isspace c")
    case True
    let ?w = "dropWhile isspace cs"
    have "WS_RE_sub ?w = [] \<or> \<not> isspace (hd (WS_RE_sub ?w))"
      by (rule hd_WS_RE_sub) (rule dropWhile_start)
    then have "dropWhile isspace (WS_RE_sub ?w) = WS_RE_sub ?w"
      by (rule dropWhile_isspace_id)
    with True 2 show ?thesis by (simp add: isspace_def)
  next
    case False
    with 2 show ?thesis by simp
  qed
qed

lemma upper_Nil [simp]: "upper up [] = []"
  by (simp add: upper_def)

lemma upper_Cons [simp]: "upper up (c # cs) = up c @ upper up cs"
  by (simp add: upper_def)

lemma upper_append [simp]: "upper up (xs @ ys) = upper up xs @ upper up ys"
  by (simp add: upper_def)

lemma up_space_ws: "up_space up \<Longrightarrow> isspace c \<Longrightarrow> up c = [c]"
  unfolding up_space_def by (erule allE [of _ c]) simp

lemma up_space_nonws: "up_space up \<Longrightarrow> \<not> isspace c \<Longrightarrow> up c \<noteq> [] \<and> (\<forall>d \<in> set (up c). \<not> isspace d)"
  unfolding up_space_def by (erule allE [of _ c]) simp

lemma dropWhile_upper:
  assumes "up_space up"
  shows "dropWhile isspace (upper up s) = upper up (dropWhile isspace s)"
proof (induction s)
  case Nil
  then show ?case by simp
next
  case (Cons c cs)
  show ?case
  proof (cases "isspace c")
    case True
    with Cons up_space_ws [OF assms True] show ?thesis by simp
  next
    case False
    from up_space_nonws [OF assms False] obtain d ds where d: "up c = d # ds" "\<not> isspace d"
      by (cases "up c") auto
    with False show ?thesis by simp
  qed
qed

lemma upper_WS_RE_sub:
  assumes "up_space up"
  shows "upper up (WS_RE_sub s) = WS_RE_sub (upper up s)"
proof (induction s rule: WS_RE_sub.induct)
  case 1
  then show ?case by simp
next
  case (2 c cs)
  show ?case
  proof (cases "isspace c")
    case True
    have s32: "isspace 32" by (simp add: isspace_def)
    from True 2 show ?thesis
      by (simp add: up_space_ws [OF assms True] up_space_ws [OF assms s32] dropWhile_upper [OF assms])
  next
    case False
    from up_space_nonws [OF assms False] have "\<forall>d \<in> set (up c). \<not> isspace d" by simp
    then have "WS_RE_sub (up c @ upper up cs) = up c @ WS_RE_sub (upper up cs)"
      by (rule WS_RE_sub_append_nospace)
    with False 2 show ?thesis by simp
  qed
qed

lemma upper_eq_Nil:
  assumes "up_space up"
  shows "upper up s = [] \<longleftrightarrow> s = []"
proof (cases s)
  case Nil
  then show ?thesis by simp
next
  case (Cons c cs)
  have "up c \<noteq> []"
    using up_space_ws [OF assms, of c] up_space_nonws [OF assms, of c] by (cases "isspace c") auto
  with Cons show ?thesis by simp
qed

section \<open>The normalizer\<close>

text \<open>
  C6. Null and the empty string have the same normalized token: both are mapped to the
  sentinel by the first test of \<open>_norm\<close>.
\<close>

theorem norm_null_empty: "norm up PNone = norm up (PStr [])"
  by (simp add: norm_def)

lemma norm_nonblank:
  assumes "up_space up" "v \<noteq> PNone" "\<exists>c \<in> set (str v). \<not> isspace c"
  shows "norm up v = WS_RE_sub (upper up (strip (str v)))"
proof -
  from assms(3) have "strip (str v) \<noteq> []" by (simp add: strip_Nil_iff)
  then have "upper up (strip (str v)) \<noteq> []" by (simp add: upper_eq_Nil [OF assms(1)])
  moreover from assms(3) have "v \<noteq> PStr []" by auto
  ultimately show ?thesis using assms(2) by (simp add: norm_def)
qed

lemma norm_blank: "\<forall>c \<in> set (str v). isspace c \<Longrightarrow> norm up v = NULL"
  by (simp add: norm_def strip_Nil_iff [THEN iffD2])

lemma norm_not_Nil: "norm up v \<noteq> []"
  by (simp add: norm_def NULL_def Let_def)

text \<open>
  C9. A string that is not empty and holds nothing but whitespace is neither null nor
  the empty string, and yet its token is the sentinel, the token of null: \<open>strip\<close>
  leaves nothing, and \<open>s or _NULL\<close> is \<open>_NULL\<close>.
\<close>

theorem norm_whitespace_only:
  assumes "s \<noteq> []" and "\<forall>c \<in> set s. isspace c"
  shows "PStr s \<noteq> PNone \<and> PStr s \<noteq> PStr [] \<and> norm up (PStr s) = norm up PNone"
proof -
  have "norm up (PStr s) = NULL" using assms(2) by (simp add: norm_blank)
  moreover have "norm up PNone = NULL" by (simp add: norm_def)
  ultimately show ?thesis using assms(1) by simp
qed

theorem norm_whitespace_only_witness:
  "norm upper_latin1 (PStr [32, 9, 160]) = norm upper_latin1 PNone"
  using norm_whitespace_only [of "[32, 9, 160]" upper_latin1] by (simp add: isspace_def)

text \<open>
  C4, amended. For every value that is not null and whose string representation holds a
  character that is not whitespace, \<open>_norm\<close> returns the string representation
  trimmed, its runs of whitespace collapsed to one space, and uppercased. (The code
  uppercases before it collapses; with a table that leaves whitespace alone the order
  does not matter.) The claim as written also covers the strings of whitespace only,
  where the words of the specification give the empty string and the code the sentinel.
\<close>

theorem norm_spec_normalize:
  assumes "up_space up" and "v \<noteq> PNone" and "\<exists>c \<in> set (str v). \<not> isspace c"
  shows "norm up v = spec_normalize up v"
  using norm_nonblank [OF assms] by (simp add: spec_normalize_def upper_WS_RE_sub [OF assms(1)])

theorem norm_spec_normalize_counterexample:
  "PStr (ascii ''   '') \<noteq> PNone \<and> PStr (ascii ''   '') \<noteq> PStr [] \<and>
   norm upper_latin1 (PStr (ascii ''   '')) \<noteq> spec_normalize upper_latin1 (PStr (ascii ''   ''))"
  by (simp add: norm_def spec_normalize_def strip_def isspace_def NULL_def)

lemma up_space_latin1: "up_space upper_latin1"
  unfolding up_space_def upper_latin1_def isspace_def by auto

lemma up_idem_latin1: "up_idem upper_latin1"
  unfolding up_idem_def upper_latin1_def by auto

lemma up_keeps_latin1_bar: "up_keeps upper_latin1 124"
  unfolding up_keeps_def upper_latin1_def by (auto split: if_splits)

lemma up_keeps_latin1_sect: "up_keeps upper_latin1 167"
  unfolding up_keeps_def upper_latin1_def by (auto split: if_splits)

theorem norm_spec_normalize_witness:
  "norm upper_latin1 (PStr (ascii '' John  Doe '')) = spec_normalize upper_latin1 (PStr (ascii '' John  Doe ''))
   \<and> norm upper_latin1 (PStr (ascii '' John  Doe '')) = ascii ''JOHN DOE''"
proof -
  have "\<exists>c \<in> set (str (PStr (ascii '' John  Doe ''))). \<not> isspace c"
    by (simp add: isspace_def)
  from norm_spec_normalize [OF up_space_latin1 _ this]
  show ?thesis
    by (simp add: spec_normalize_def strip_def isspace_def upper_latin1_def)
qed

lemma NULL_eval: "NULL = [167, 78, 85, 76, 76, 167]"
  by (simp add: NULL_def)

lemma WS_RE_sub_NULL: "WS_RE_sub NULL = NULL"
  by (simp add: NULL_eval isspace_def)

lemma strip_NULL: "strip NULL = NULL"
  by (simp add: NULL_eval strip_def isspace_def)

lemma norm_eq_NULL_iff:
  assumes "up_space up"
  shows "norm up v = NULL \<longleftrightarrow>
           v = PNone \<or> strip (str v) = [] \<or> upper up (strip (str v)) = NULL"
proof (cases "v = PNone \<or> strip (str v) = []")
  case True
  then show ?thesis by (auto simp: norm_def Let_def)
next
  case False
  then have ne: "upper up (strip (str v)) \<noteq> []" by (simp add: upper_eq_Nil [OF assms])
  from False have v: "v \<noteq> PNone" "v \<noteq> PStr []" by (auto simp: strip_def)
  have n: "norm up v = WS_RE_sub (upper up (strip (str v)))"
    using v ne by (simp add: norm_def)
  show ?thesis
  proof
    assume "norm up v = NULL"
    with n have e: "WS_RE_sub (upper up (strip (str v))) = NULL" by simp
    then have "32 \<notin> set (WS_RE_sub (upper up (strip (str v))))" by (simp add: NULL_eval)
    then have "WS_RE_sub (upper up (strip (str v))) = upper up (strip (str v))"
      by (rule WS_RE_sub_nospace)
    with e show "v = PNone \<or> strip (str v) = [] \<or> upper up (strip (str v)) = NULL" by simp
  next
    assume "v = PNone \<or> strip (str v) = [] \<or> upper up (strip (str v)) = NULL"
    with False have "upper up (strip (str v)) = NULL" by simp
    with n show "norm up v = NULL" by (simp add: WS_RE_sub_NULL)
  qed
qed

lemma set_upper_keeps:
  assumes "up_keeps up k" and "k \<in> set (upper up s)"
  shows "k \<in> set s"
  using assms by (auto simp: upper_def up_keeps_def)

text \<open>
  C3, amended. Null and the empty string are mapped to the sentinel, and the token of a
  value is the sentinel exactly when the value is null, or its string representation
  holds nothing but whitespace (the empty string included), or its string
  representation, trimmed and uppercased, is the text of the sentinel itself. So the
  token of a value that is not null, holds a character that is not whitespace and does
  not hold U+00A7 is not the sentinel; the string \<open>NULL\<close> is such a value. The claim as
  written fails at the strings of whitespace only and at the strings that spell the
  sentinel.
\<close>

theorem norm_sentinel:
  assumes "up_space up" and "up_keeps up 167"
  shows "norm up PNone = NULL \<and> norm up (PStr []) = NULL \<and>
         (norm up v = NULL \<longleftrightarrow>
            v = PNone \<or> strip (str v) = [] \<or> upper up (strip (str v)) = NULL) \<and>
         (v = PNone \<or> strip (str v) = [] \<or> 167 \<in> set (str v) \<or> norm up v \<noteq> NULL) \<and>
         norm up (PStr (ascii ''NULL'')) \<noteq> NULL"
proof -
  have a: "norm up PNone = NULL \<and> norm up (PStr []) = NULL" by (simp add: norm_def)
  have c: "v = PNone \<or> strip (str v) = [] \<or> 167 \<in> set (str v) \<or> norm up v \<noteq> NULL" for v
  proof (cases "norm up v = NULL \<and> v \<noteq> PNone \<and> strip (str v) \<noteq> []")
    case True
    then have "upper up (strip (str v)) = NULL"
      using norm_eq_NULL_iff [OF assms(1), of v] by blast
    then have "167 \<in> set (upper up (strip (str v)))" by (simp add: NULL_eval)
    then have "167 \<in> set (strip (str v))" by (rule set_upper_keeps [OF assms(2)])
    then show ?thesis using set_strip [of "str v"] by auto
  next
    case False
    then show ?thesis by auto
  qed
  have "norm up (PStr (ascii ''NULL'')) \<noteq> NULL"
    using c [of "PStr (ascii ''NULL'')"] by (simp add: strip_def isspace_def)
  with a c [of v] norm_eq_NULL_iff [OF assms(1), of v] show ?thesis by blast
qed

theorem norm_sentinel_witness:
  "norm upper_latin1 (PStr (ascii ''null'')) \<noteq> NULL \<and>
   norm upper_latin1 (PStr (ascii ''null'')) = ascii ''NULL'' \<and>
   norm upper_latin1 PNone = NULL"
  using norm_sentinel [OF up_space_latin1 up_keeps_latin1_sect, of "PStr (ascii ''null'')"]
  by (simp add: norm_def strip_def isspace_def upper_latin1_def NULL_eval)

theorem norm_sentinel_counterexample:
  "PStr (167 # ascii ''null'' @ [167]) \<noteq> PNone \<and> PStr (167 # ascii ''null'' @ [167]) \<noteq> PStr [] \<and>
   norm upper_latin1 (PStr (167 # ascii ''null'' @ [167])) = norm upper_latin1 PNone"
  by (simp add: norm_def strip_def isspace_def upper_latin1_def NULL_eval)

section \<open>The hash engine\<close>

lemma norm_cases: "norm up v = NULL \<or> norm up v = WS_RE_sub (upper up (strip (str v)))"
  by (simp add: norm_def Let_def)

lemma norm_no_bar:
  assumes "up_keeps up 124" and "124 \<notin> set (str v)"
  shows "124 \<notin> set (norm up v)"
proof
  assume b: "124 \<in> set (norm up v)"
  have "124 \<notin> set NULL" by (simp add: NULL_eval)
  with b norm_cases [of up v] have "124 \<in> set (WS_RE_sub (upper up (strip (str v))))"
    by auto
  with set_WS_RE_sub [of "upper up (strip (str v))"] have "124 \<in> set (upper up (strip (str v)))"
    by auto
  then have "124 \<in> set (strip (str v))" by (rule set_upper_keeps [OF assms(1)])
  with set_strip [of "str v"] assms(2) show False by auto
qed

lemma join_Cons: "join sep (x # xs) = x @ (if xs = [] then [] else sep @ join sep xs)"
  by (cases xs) simp_all

lemma join_eq_Nil: "\<forall>x \<in> set xs. x \<noteq> [] \<Longrightarrow> join sep xs = [] \<longleftrightarrow> xs = []"
  by (cases xs) (simp_all add: join_Cons)

lemma takeWhile_sep: "s \<notin> set x \<Longrightarrow> takeWhile (\<lambda>c. c \<noteq> s) (x @ s # l) = x"
  by (induction x) auto

lemma takeWhile_nosep: "s \<notin> set x \<Longrightarrow> takeWhile (\<lambda>c. c \<noteq> s) x = x"
  by (induction x) auto

lemma sep_split:
  assumes "s \<notin> set x" and "s \<notin> set y" and "x @ a = y @ b"
    and "a = [] \<or> hd a = s" and "b = [] \<or> hd b = s"
  shows "x = y \<and> a = b"
proof -
  have "takeWhile (\<lambda>c. c \<noteq> s) (x @ a) = x"
    using assms(1,4) by (cases a) (auto simp: takeWhile_sep takeWhile_nosep)
  moreover have "takeWhile (\<lambda>c. c \<noteq> s) (y @ b) = y"
    using assms(2,5) by (cases b) (auto simp: takeWhile_sep takeWhile_nosep)
  ultimately have "x = y" using assms(3) by simp
  with assms(3) show ?thesis by simp
qed

lemma join_inj:
  assumes "\<forall>x \<in> set xs. x \<noteq> [] \<and> s \<notin> set x" and "\<forall>y \<in> set ys. y \<noteq> [] \<and> s \<notin> set y"
    and "join [s] xs = join [s] ys"
  shows "xs = ys"
  using assms
proof (induction xs arbitrary: ys)
  case Nil
  then show ?case using join_eq_Nil [of ys "[s]"] by simp
next
  case (Cons x xs)
  show ?case
  proof (cases ys)
    case Nil
    with Cons.prems show ?thesis using join_eq_Nil [of "x # xs" "[s]"] by simp
  next
    case (Cons y ys')
    let ?a = "if xs = [] then [] else [s] @ join [s] xs"
    let ?b = "if ys' = [] then [] else [s] @ join [s] ys'"
    from Cons.prems(3) Cons have e: "x @ ?a = y @ ?b" by (simp only: join_Cons)
    have "x = y \<and> ?a = ?b"
      using Cons.prems(1,2) Cons by (intro sep_split [OF _ _ e]) auto
    then have xy: "x = y" and ab: "?a = ?b" by simp_all
    have "xs = ys'"
    proof (cases "xs = []")
      case True
      with ab show ?thesis by (auto split: if_splits)
    next
      case False
      with ab have "ys' \<noteq> []" and "join [s] xs = join [s] ys'" by (auto split: if_splits)
      with Cons.IH [of ys'] Cons.prems(1,2) Cons show ?thesis by simp
    qed
    with xy Cons show ?thesis by simp
  qed
qed

text \<open>
  C2, amended. \<open>_norm\<close> does not remove or escape the separator: the token of a value
  holds \<open>|\<close> when the value does. For values whose string representation holds no
  \<open>|\<close>, no token holds it, and two sequences of such values whose token sequences
  differ are joined to different strings.
\<close>

theorem dv2_joined_separator:
  assumes "up_keeps up 124" and "\<forall>v \<in> set xs \<union> set ys. 124 \<notin> set (str v)"
  shows "(\<forall>v \<in> set xs \<union> set ys. 124 \<notin> set (norm up v)) \<and>
         (map (norm up) xs \<noteq> map (norm up) ys \<longrightarrow> dv2_joined up xs \<noteq> dv2_joined up ys)"
proof -
  have n: "124 \<notin> set (norm up v)" if "v \<in> set xs \<union> set ys" for v
    using that assms(2) by (intro norm_no_bar [OF assms(1)]) blast
  have "map (norm up) xs = map (norm up) ys" if "dv2_joined up xs = dv2_joined up ys"
  proof (rule join_inj [of _ 124])
    show "\<forall>x \<in> set (map (norm up) xs). x \<noteq> [] \<and> 124 \<notin> set x"
      using n by (auto simp: norm_not_Nil)
    show "\<forall>y \<in> set (map (norm up) ys). y \<noteq> [] \<and> 124 \<notin> set y"
      using n by (auto simp: norm_not_Nil)
    show "join [124] (map (norm up) xs) = join [124] (map (norm up) ys)"
      using that by (simp add: dv2_joined_def)
  qed
  with n show ?thesis by blast
qed

theorem dv2_joined_separator_witness:
  "dv2_joined upper_latin1 [PStr (ascii ''ab''), PNone] \<noteq> dv2_joined upper_latin1 [PStr (ascii ''a''), PStr (ascii ''b'')] \<and>
   124 \<notin> set (norm upper_latin1 (PStr (ascii ''ab'')))"
proof -
  have h: "\<forall>v \<in> set [PStr (ascii ''ab''), PNone] \<union> set [PStr (ascii ''a''), PStr (ascii ''b'')]. 124 \<notin> set (str v)"
    by simp
  have d: "map (norm upper_latin1) [PStr (ascii ''ab''), PNone] \<noteq> map (norm upper_latin1) [PStr (ascii ''a''), PStr (ascii ''b'')]"
    by (simp add: norm_def strip_def isspace_def upper_latin1_def NULL_eval)
  from dv2_joined_separator [OF up_keeps_latin1_bar h] d show ?thesis by simp
qed

theorem dv2_joined_separator_counterexample:
  "124 \<in> set (norm upper_latin1 (PStr (ascii ''a|b''))) \<and>
   map (norm upper_latin1) [PStr (ascii ''a|b'')] \<noteq> map (norm upper_latin1) [PStr (ascii ''a''), PStr (ascii ''b'')] \<and>
   dv2_joined upper_latin1 [PStr (ascii ''a|b'')] = dv2_joined upper_latin1 [PStr (ascii ''a''), PStr (ascii ''b'')]"
  by (simp add: dv2_joined_def norm_def strip_def isspace_def upper_latin1_def)

text \<open>
  C8. \<open>dv2_hash\<close> reads nothing but its argument (and the uppercase table), so it is a
  function of it; and it sees its argument only through the tokens: two sequences with
  the same tokens have the same digest, or fail alike.
\<close>

theorem dv2_hash_deterministic:
  "dv2_hash up xs = dv2_hash up xs \<and>
   (map (norm up) xs = map (norm up) ys \<longrightarrow> dv2_hash up xs = dv2_hash up ys)"
  by (simp add: dv2_hash_def dv2_joined_def)

theorem dv2_hash_deterministic_witness:
  "map (norm upper_latin1) [PStr (ascii '' John  Doe ''), PNone] = map (norm upper_latin1) [PStr (ascii ''JOHN DOE''), PStr []] \<and>
   dv2_hash upper_latin1 [PStr (ascii '' John  Doe ''), PNone] = dv2_hash upper_latin1 [PStr (ascii ''JOHN DOE''), PStr []]"
proof -
  have m: "map (norm upper_latin1) [PStr (ascii '' John  Doe ''), PNone] = map (norm upper_latin1) [PStr (ascii ''JOHN DOE''), PStr []]"
    by (simp add: norm_def strip_def isspace_def upper_latin1_def)
  from dv2_hash_deterministic [of upper_latin1 "[PStr (ascii '' John  Doe ''), PNone]" "[PStr (ascii ''JOHN DOE''), PStr []]"] m
  show ?thesis by blast
qed

lemma strip_id: "s = [] \<or> (\<not> isspace (hd s) \<and> \<not> isspace (last s)) \<Longrightarrow> strip s = s"
proof (cases s)
  case Nil
  then show ?thesis by (simp add: strip_def)
next
  case (Cons a as)
  assume "s = [] \<or> (\<not> isspace (hd s) \<and> \<not> isspace (last s))"
  with Cons have h: "\<not> isspace a" and l: "\<not> isspace (last s)" by simp_all
  from Cons have "rev s \<noteq> []" by simp
  moreover have "hd (rev s) = last s" using Cons by (simp add: hd_rev)
  ultimately have "dropWhile isspace (rev s) = rev s" using l by (intro dropWhile_isspace_id) simp
  with Cons h show ?thesis by (simp add: strip_def)
qed

lemma strip_ends: "strip s = [] \<or> (\<not> isspace (hd (strip s)) \<and> \<not> isspace (last (strip s)))"
proof (cases "strip s = []")
  case True
  then show ?thesis by simp
next
  case False
  let ?d = "dropWhile isspace s"
  let ?e = "dropWhile isspace (rev ?d)"
  from False have e: "?e \<noteq> []" by (simp add: strip_def)
  have d: "?d \<noteq> []"
  proof
    assume "?d = []"
    then have "?e = []" by (simp only: rev.simps dropWhile.simps)
    with e show False by simp
  qed
  have l: "\<not> isspace (hd ?e)" using e hd_dropWhile [of isspace "rev ?d"] by simp
  have "last (strip s) = hd ?e" using e by (simp add: strip_def last_rev)
  with l have a: "\<not> isspace (last (strip s))" by simp
  have "hd (strip s) = last ?e" using e by (simp add: strip_def hd_rev)
  also have "\<dots> = last (rev ?d)"
  proof -
    have "rev ?d = takeWhile isspace (rev ?d) @ ?e" by simp
    then have "last (rev ?d) = last (takeWhile isspace (rev ?d) @ ?e)" by simp
    also have "\<dots> = last ?e" using e by (rule last_appendR)
    finally show ?thesis by simp
  qed
  also have "\<dots> = hd ?d" using d by (simp add: last_rev)
  finally have "\<not> isspace (hd (strip s))" using d hd_dropWhile [of isspace s] by simp
  with a show ?thesis by simp
qed

lemma upper_ends:
  assumes "up_space up" and "s = [] \<or> (\<not> isspace (hd s) \<and> \<not> isspace (last s))"
  shows "upper up s = [] \<or> (\<not> isspace (hd (upper up s)) \<and> \<not> isspace (last (upper up s)))"
proof (cases s rule: rev_cases)
  case Nil
  then show ?thesis by simp
next
  case (snoc ys b)
  with assms(2) have b: "\<not> isspace b" by simp
  from snoc assms(2) have "\<not> isspace (hd s)" by simp
  moreover from snoc have "s \<noteq> []" by simp
  then obtain a as where s: "s = a # as" by (cases s) auto
  ultimately have a: "\<not> isspace a" by simp
  from up_space_nonws [OF assms(1) a] have ua: "up a \<noteq> []" "\<not> isspace (hd (up a))"
    by (auto simp: hd_in_set)
  from up_space_nonws [OF assms(1) b] have ub: "up b \<noteq> []" "\<not> isspace (last (up b))"
    by (auto simp: last_in_set)
  have "hd (upper up s) = hd (up a)" using s ua by simp
  moreover have "last (upper up s) = last (up b)" using snoc ub by simp
  ultimately show ?thesis using ua ub by simp
qed

lemma last_WS_RE_sub: "s \<noteq> [] \<Longrightarrow> \<not> isspace (last s) \<Longrightarrow> last (WS_RE_sub s) = last s"
proof (induction s rule: WS_RE_sub.induct)
  case 1
  then show ?case by simp
next
  case (2 c cs)
  show ?case
  proof (cases "isspace c")
    case True
    let ?d = "dropWhile isspace cs"
    from True "2.prems" have cs: "cs \<noteq> []" by auto
    with "2.prems" have lc: "\<not> isspace (last cs)" by simp
    then have d: "?d \<noteq> []" using cs by (auto simp: dropWhile_eq_Nil_conv)
    have "cs = takeWhile isspace cs @ ?d" by simp
    then have "last cs = last (takeWhile isspace cs @ ?d)" by simp
    also have "\<dots> = last ?d" using d by (rule last_appendR)
    finally have ld: "last ?d = last cs" by simp
    with lc have "\<not> isspace (last ?d)" by simp
    with "2.IH"(1) [OF True d] have "last (WS_RE_sub ?d) = last ?d" by simp
    with True d ld cs show ?thesis by auto
  next
    case False
    show ?thesis
    proof (cases "cs = []")
      case True
      with False show ?thesis by simp
    next
      case ne: False
      with "2.prems" have "\<not> isspace (last cs)" by simp
      with "2.IH"(2) [OF False ne] False ne show ?thesis by simp
    qed
  qed
qed

lemma WS_RE_sub_ends:
  assumes "s = [] \<or> (\<not> isspace (hd s) \<and> \<not> isspace (last s))"
  shows "WS_RE_sub s = [] \<or> (\<not> isspace (hd (WS_RE_sub s)) \<and> \<not> isspace (last (WS_RE_sub s)))"
proof (cases s)
  case Nil
  then show ?thesis by simp
next
  case (Cons a as)
  with assms have a: "\<not> isspace a" and l: "\<not> isspace (last s)" by simp_all
  from Cons l have "last (WS_RE_sub s) = last s" by (intro last_WS_RE_sub) simp_all
  with Cons a l show ?thesis by simp
qed

lemma upper_upper: "up_idem up \<Longrightarrow> upper up (upper up s) = upper up s"
  by (induction s) (simp_all add: up_idem_def upper_def)

lemma norm_norm:
  assumes "up_space up" and "up_idem up" and "upper up NULL = NULL"
  shows "norm up (PStr (norm up v)) = norm up v"
proof -
  have N: "norm up (PStr NULL) = NULL"
    using assms(3) by (simp add: norm_def strip_NULL WS_RE_sub_NULL)
  let ?x = "strip (str v)"
  let ?t = "WS_RE_sub (upper up ?x)"
  have T: "norm up (PStr ?t) = ?t" if "?t \<noteq> []"
  proof -
    have "?t = [] \<or> (\<not> isspace (hd ?t) \<and> \<not> isspace (last ?t))"
      by (intro WS_RE_sub_ends upper_ends [OF assms(1)] strip_ends)
    then have s: "strip ?t = ?t" by (rule strip_id)
    have "upper up ?t = WS_RE_sub (upper up (upper up ?x))"
      by (rule upper_WS_RE_sub [OF assms(1)])
    then have u: "upper up ?t = ?t" by (simp add: upper_upper [OF assms(2)])
    from that s u show ?thesis by (simp add: norm_def WS_RE_sub_idem)
  qed
  from norm_cases [of up v] show ?thesis
  proof
    assume "norm up v = NULL"
    with N show ?thesis by simp
  next
    assume e: "norm up v = ?t"
    with norm_not_Nil [of up v] have "?t \<noteq> []" by simp
    with T e show ?thesis by simp
  qed
qed

text \<open>
  C10. The token of a token is the token itself, and \<open>dv2_hash\<close> gives the same result
  on a sequence of values and on the sequence of their tokens.
\<close>

theorem norm_idempotent:
  assumes "up_space up" and "up_idem up" and "upper up NULL = NULL"
  shows "norm up (PStr (norm up v)) = norm up v \<and>
         dv2_hash up cols = dv2_hash up (map (\<lambda>c. PStr (norm up c)) cols)"
proof -
  have "map (norm up) (map (\<lambda>c. PStr (norm up c)) cols) = map (norm up) cols"
    by (simp add: norm_norm [OF assms] comp_def)
  then have "dv2_joined up (map (\<lambda>c. PStr (norm up c)) cols) = dv2_joined up cols"
    by (simp only: dv2_joined_def)
  then show ?thesis by (simp add: norm_norm [OF assms] dv2_hash_def)
qed

lemma upper_latin1_NULL: "upper upper_latin1 NULL = NULL"
  by (simp add: NULL_eval upper_latin1_def)

theorem norm_idempotent_witness:
  "norm upper_latin1 (PStr (norm upper_latin1 (PStr (ascii '' a  b '')))) = ascii ''A B'' \<and>
   norm upper_latin1 (PStr (ascii '' a  b '')) = ascii ''A B'' \<and>
   dv2_hash upper_latin1 [PStr (ascii '' a  b ''), PNone] = dv2_hash upper_latin1 [PStr (ascii ''A B''), PStr NULL]"
proof -
  have a: "norm upper_latin1 (PStr (ascii '' a  b '')) = ascii ''A B''"
    by (simp add: norm_def strip_def isspace_def upper_latin1_def)
  have b: "norm upper_latin1 PNone = NULL" by (simp add: norm_def)
  from norm_idempotent [OF up_space_latin1 up_idem_latin1 upper_latin1_NULL,
      of "PStr (ascii '' a  b '')" "[PStr (ascii '' a  b ''), PNone]"]
  show ?thesis by (simp only: a b list.map)
qed

section \<open>The UTF-8 encoder and the digest\<close>

text \<open>The model of SHA-256 on the example of FIPS 180-4, the message \<open>abc\<close>.\<close>

lemma sha256_abc:
  "hexdigest (sha256 [97, 98, 99]) =
     ascii ''ba7816bf8f01cfea414140de5dae2223b00361a396177a9cb410ff61f20015ad''"
  by code_simp













section \<open>The hashes of a record\<close>




lemma length_columns [simp]: "length (columns r) = 8"
  by (simp add: columns_def)






section \<open>The hashed landing\<close>

lemma hash_row_Inr:
  assumes "hash_row up src now r = Inr h"
  shows "bk_hash_of up r = Inr (bk_hash h) \<and> row_hash_of up r = Inr (row_hash h)"
  using assms by (auto simp: hash_row_def split: sum.splits)

lemma hash_row_again:
  assumes "hash_row up src now r = Inr h"
  shows "\<exists>h'. hash_row up src' now' r = Inr h' \<and> pk h' = pk h"
  using hash_row_Inr [OF assms] by (simp add: hash_row_def pk_def)

lemma with_columns_length: "with_columns up src now rs = Inr hs \<Longrightarrow> length hs = length rs"
  by (induction rs arbitrary: hs) (auto split: sum.splits)

lemma with_columns_again:
  "with_columns up src now rs = Inr hs \<Longrightarrow>
   \<exists>hs'. with_columns up src' now' rs = Inr hs' \<and> map pk hs' = map pk hs"
proof (induction rs arbitrary: hs)
  case Nil
  then show ?case by simp
next
  case (Cons r rs)
  from Cons.prems obtain h hs0 where
    h: "hash_row up src now r = Inr h" and hs0: "with_columns up src now rs = Inr hs0"
    and hs: "hs = h # hs0"
    by (auto split: sum.splits)
  from hash_row_again [OF h] obtain h' where "hash_row up src' now' r = Inr h'" "pk h' = pk h"
    by blast
  moreover from Cons.IH [OF hs0] obtain hs' where
    "with_columns up src' now' rs = Inr hs'" "map pk hs' = map pk hs0" by blast
  ultimately show ?case using hs by simp
qed

lemma insert_keys:
  "set (map pk (insert_on_conflict_do_nothing t b)) = set (map pk t) \<union> set (map pk b)"
  by (induction b arbitrary: t) auto

lemma insert_noop:
  "set (map pk b) \<subseteq> set (map pk t) \<Longrightarrow> insert_on_conflict_do_nothing t b = t"
  by (induction b arbitrary: t) auto

lemma insert_distinct:
  "distinct (map pk t) \<Longrightarrow> distinct (map pk (insert_on_conflict_do_nothing t b))"
  by (induction b arbitrary: t) auto

lemma write_df_bronze: "write_df df d = Inr d' \<Longrightarrow> bronze d' = bronze d"
  by (auto simp: write_df_def Let_def split: if_splits)

lemma write_df_again:
  assumes "write_df df d = Inr d'" and "set (map pk df') \<subseteq> set (map pk df)"
  shows "write_df df' d' = Inr d'"
proof -
  define t where "t = (case bhash d of None \<Rightarrow> \<lparr>rows = [], has_pk = False\<rparr> | Some t \<Rightarrow> t)"
  from assms(1) have d': "d' = d\<lparr>bhash := Some \<lparr>rows = insert_on_conflict_do_nothing (rows t) df,
      has_pk = True\<rparr>\<rparr>"
    by (auto simp: write_df_def Let_def t_def split: if_splits)
  have "set (map pk df') \<subseteq> set (map pk (insert_on_conflict_do_nothing (rows t) df))"
    using assms(2) insert_keys [of "rows t" df] by auto
  then have "insert_on_conflict_do_nothing (insert_on_conflict_do_nothing (rows t) df) df' =
             insert_on_conflict_do_nothing (rows t) df"
    by (rule insert_noop)
  then show ?thesis by (simp add: write_df_def d')
qed

text \<open>
  C1. Writing a batch into the hashed table a second time changes nothing; and a run of
  \<open>create_bronze_hash\<close> that succeeded, run again on the database it left (at any later
  instant), succeeds, returns the same count and leaves the database as it is, so the
  number of rows of the hashed table is the same after two runs as after one.
\<close>

theorem merge_idempotent:
  "(write_df df d = Inr d' \<longrightarrow> write_df df d' = Inr d') \<and>
   (create_bronze_hash up src now d = Inr (n, d'') \<longrightarrow>
      create_bronze_hash up src now' d'' = Inr (n, d''))"
proof (intro conjI impI)
  assume "write_df df d = Inr d'"
  then show "write_df df d' = Inr d'" by (rule write_df_again) simp
next
  assume a: "create_bronze_hash up src now d = Inr (n, d'')"
  then obtain pdf where pdf: "bronze d = Some pdf"
    by (auto simp: create_bronze_hash_def split: option.splits)
  show "create_bronze_hash up src now' d'' = Inr (n, d'')"
  proof (cases "pdf = []")
    case True
    with a pdf show ?thesis by (simp add: create_bronze_hash_def)
  next
    case False
    with a pdf obtain df where df: "with_columns up src now pdf = Inr df"
      and w: "write_df df d = Inr d''" and n: "n = length df"
      by (auto simp: create_bronze_hash_def split: sum.splits)
    from with_columns_again [OF df] obtain df' where
      df': "with_columns up src now' pdf = Inr df'" and k: "map pk df' = map pk df" by blast
    from k have "length df' = length df" by (metis length_map)
    moreover from k have "set (map pk df') \<subseteq> set (map pk df)" by simp
    with w have "write_df df' d'' = Inr d''" by (rule write_df_again)
    moreover from write_df_bronze [OF w] pdf have "bronze d'' = Some pdf" by simp
    ultimately show ?thesis using False df' n by (simp add: create_bronze_hash_def)
  qed
qed

text \<open>
  C5. A successful run returns the number of rows read from the bronze table, whatever
  the number of rows the merge inserted; on an empty bronze table it returns 0 and
  leaves the database as it is.
\<close>

theorem create_bronze_hash_count:
  "(create_bronze_hash up src now d = Inr (n, d') \<longrightarrow>
      bronze d \<noteq> None \<and> n = length (the (bronze d))) \<and>
   (bronze d = Some [] \<longrightarrow> create_bronze_hash up src now d = Inr (0, d))"
  by (auto simp: create_bronze_hash_def with_columns_length split: option.splits sum.splits if_splits)

lemma sample_db_run:
  "\<exists>d1. create_bronze_hash upper_latin1 (ascii ''GEN_SYNTH'') 1 sample_db = Inr (2, d1) \<and>
        bhash d1 \<noteq> None \<and> length (rows (the (bhash d1))) = 1"
  by (simp add: create_bronze_hash_def sample_db_def sample_row_def hash_row_def bk_hash_of_def
      row_hash_of_def dv2_hash_def dv2_joined_def columns_def norm_def strip_def isspace_def
      upper_latin1_def NULL_eval encode_cp_def utf8_bytes_def write_df_def pk_def)

theorem merge_idempotent_witness:
  "\<exists>d1. create_bronze_hash upper_latin1 (ascii ''GEN_SYNTH'') 1 sample_db = Inr (2, d1) \<and>
        create_bronze_hash upper_latin1 (ascii ''GEN_SYNTH'') 2 d1 = Inr (2, d1) \<and>
        length (rows (the (bhash d1))) = 1"
proof -
  from sample_db_run obtain d1 where
    1: "create_bronze_hash upper_latin1 (ascii ''GEN_SYNTH'') 1 sample_db = Inr (2, d1)"
    and 2: "length (rows (the (bhash d1))) = 1" by blast
  from merge_idempotent [of _ sample_db _ upper_latin1 "ascii ''GEN_SYNTH''" 1 2 d1 2] 1
  have "create_bronze_hash upper_latin1 (ascii ''GEN_SYNTH'') 2 d1 = Inr (2, d1)" by blast
  with 1 2 show ?thesis by blast
qed

theorem create_bronze_hash_count_witness:
  "(\<exists>d1. create_bronze_hash upper_latin1 (ascii ''GEN_SYNTH'') 1 sample_db = Inr (2, d1) \<and>
         length (the (bronze sample_db)) = 2 \<and> length (rows (the (bhash d1))) = 1) \<and>
   create_bronze_hash upper_latin1 (ascii ''GEN_SYNTH'') 1 \<lparr>bronze = Some [], bhash = None\<rparr> =
     Inr (0, \<lparr>bronze = Some [], bhash = None\<rparr>)"
proof -
  from sample_db_run obtain d1 where
    1: "create_bronze_hash upper_latin1 (ascii ''GEN_SYNTH'') 1 sample_db = Inr (2, d1)"
    and 2: "length (rows (the (bhash d1))) = 1" by blast
  from create_bronze_hash_count [of upper_latin1 "ascii ''GEN_SYNTH''" 1 sample_db 2 d1] 1
  have 3: "length (the (bronze sample_db)) = 2" by simp
  from create_bronze_hash_count [of upper_latin1 "ascii ''GEN_SYNTH''" 1
      "\<lparr>bronze = Some [], bhash = None\<rparr>"]
  have "create_bronze_hash upper_latin1 (ascii ''GEN_SYNTH'') 1 \<lparr>bronze = Some [], bhash = None\<rparr> =
     Inr (0, \<lparr>bronze = Some [], bhash = None\<rparr>)" by simp
  with 1 2 3 show ?thesis by blast
qed

end
